theory Spec2Isabelle
  imports Complex_Main "HOL-Library.Log_Nat"
begin

section \<open>Strings\<close>

text \<open>
  A JavaScript string is represented by its UTF-8 encoding, a \<^typ>\<open>string\<close>: two
  JavaScript strings are equal exactly when their encodings are, concatenation and the
  empty string are those of lists, and an ASCII character is one \<^typ>\<open>char\<close>, so the
  string literals of the source are the literals here.

  The methods \<open>String.prototype.toUpperCase\<close>, \<open>toLowerCase\<close> and \<open>trim\<close> belong to
  the language and not to the program. They are parameters of the model: every function
  that calls one of them takes the three as a \<open>string_ops\<close>.
\<close>

record string_ops =
  toUpperCase :: "string \<Rightarrow> string"
  toLowerCase :: "string \<Rightarrow> string"
  trim :: "string \<Rightarrow> string"

text \<open>The ASCII letters, by the code of the character.\<close>

definition is_lower :: "char \<Rightarrow> bool" where
  "is_lower c = (97 \<le> (of_char c :: nat) \<and> (of_char c :: nat) \<le> 122)"

definition is_upper :: "char \<Rightarrow> bool" where
  "is_upper c = (65 \<le> (of_char c :: nat) \<and> (of_char c :: nat) \<le> 90)"

text \<open>
  What the properties below use of \<open>toUpperCase\<close>: upper-casing twice is upper-casing
  once; the result is empty exactly for the empty string; no ASCII lower-case letter is
  left in the result. The Unicode case mapping of the language has the three
  properties.
\<close>

definition upper_case_mapping :: "string_ops \<Rightarrow> bool" where
  "upper_case_mapping S \<longleftrightarrow>
     (\<forall>s. toUpperCase S (toUpperCase S s) = toUpperCase S s)
     \<and> (\<forall>s. (toUpperCase S s = []) = (s = []))
     \<and> (\<forall>s c. c \<in> set (toUpperCase S s) \<longrightarrow> \<not> is_lower c)"

text \<open>
  The three methods on ASCII strings, where the case mappings act on the letters
  \<open>a\<close>..\<open>z\<close> and \<open>A\<close>..\<open>Z\<close> only and the white space is tab, line feed, vertical
  tab, form feed, carriage return and space. The concrete inputs below are ASCII and
  are evaluated with these.
\<close>

definition upper_char :: "char \<Rightarrow> char" where
  "upper_char c = (if is_lower c then char_of ((of_char c :: nat) - 32) else c)"

definition lower_char :: "char \<Rightarrow> char" where
  "lower_char c = (if is_upper c then char_of ((of_char c :: nat) + 32) else c)"

definition is_space :: "char \<Rightarrow> bool" where
  "is_space c = ((of_char c :: nat) \<in> {9, 10, 11, 12, 13, 32})"

definition ascii_trim :: "string \<Rightarrow> string" where
  "ascii_trim s = rev (dropWhile is_space (rev (dropWhile is_space s)))"

definition ascii_ops :: string_ops where
  "ascii_ops = \<lparr>toUpperCase = map upper_char, toLowerCase = map lower_char,
     trim = ascii_trim\<rparr>"

text \<open>
  The decimal digits of a non-negative integer, as a template literal and a property
  key render it: no sign and no leading zero. \<open>undecimal\<close> reads a numeral back.
\<close>

fun decimal :: "nat \<Rightarrow> string" where
  "decimal n =
     (if n < 10 then [char_of (48 + n)]
      else decimal (n div 10) @ [char_of (48 + n mod 10)])"

definition undecimal :: "string \<Rightarrow> nat" where
  "undecimal s = foldl (\<lambda>a c. 10 * a + (of_char c - 48)) 0 s"

section \<open>Records, objects and insertion-ordered maps\<close>

text \<open>
  A parsed row is a JavaScript object whose values are strings. A \<open>jsrecord\<close> is the
  list of its fields in the order in which they were created, the order of the columns
  of the row. The guard \<open>if (!record) return ''\<close> of \<open>extractIdentifier\<close> and
  \<open>getFieldValue\<close> has no branch here: an element of this type is never null.

  \<open>Object.entries\<close> and \<open>Object.values\<close> do not enumerate in that order: the keys
  that are array indices (the decimal numeral, without a leading zero, of an integer
  from 0 to \<open>2 ^ 32 - 2\<close>) come first, in ascending numeric order, and the other keys
  follow in the order of their creation.
\<close>

type_synonym jsrecord = "(string \<times> string) list"

definition is_digit :: "char \<Rightarrow> bool" where
  "is_digit c = (48 \<le> (of_char c :: nat) \<and> (of_char c :: nat) \<le> 57)"

definition digits_value :: "string \<Rightarrow> int" where
  "digits_value k = foldl (\<lambda>a c. 10 * a + (of_char c - 48)) 0 k"

definition array_index :: "string \<Rightarrow> int option" where
  "array_index k =
     (if k = [] \<or> \<not> list_all is_digit k \<or> 10 < length k
         \<or> (hd k = CHR ''0'' \<and> k \<noteq> ''0'')
      then None
      else let n = digits_value k in if n < 4294967295 then Some n else None)"

definition is_index_field :: "string \<times> string \<Rightarrow> bool" where
  "is_index_field p = (array_index (fst p) \<noteq> None)"

definition index_of :: "string \<times> string \<Rightarrow> int" where
  "index_of p = (case array_index (fst p) of Some n \<Rightarrow> n | None \<Rightarrow> 0)"

definition Object_entries :: "jsrecord \<Rightarrow> (string \<times> string) list" where
  "Object_entries r =
     sort_key index_of (filter is_index_field r) @ filter (\<lambda>p. \<not> is_index_field p) r"

text \<open>
  \<open>Object.fromEntries\<close>: the entries are written one after the other, a later entry
  with the same key overwriting an earlier one. Only property reads are made on the
  result, so it is a finite map.
\<close>

definition fromEntries :: "(string \<times> string) list \<Rightarrow> (string \<rightharpoonup> string)" where
  "fromEntries es = foldl (\<lambda>m (k, v). m(k \<mapsto> v)) Map.empty es"

text \<open>
  A JavaScript \<open>Map\<close> keeps its keys in the order of their first insertion;
  \<open>set\<close> on a key that is present replaces the value in place.
\<close>

type_synonym ('k, 'v) jsmap = "('k \<times> 'v) list"

fun map_set :: "'k \<Rightarrow> 'v \<Rightarrow> ('k, 'v) jsmap \<Rightarrow> ('k, 'v) jsmap" where
  "map_set k v [] = [(k, v)]"
| "map_set k v ((k', v') # m) =
     (if k' = k then (k, v) # m else (k', v') # map_set k v m)"

definition map_get :: "('k, 'v) jsmap \<Rightarrow> 'k \<Rightarrow> 'v option" where
  "map_get m k = map_of m k"

definition map_has :: "('k, 'v) jsmap \<Rightarrow> 'k \<Rightarrow> bool" where
  "map_has m k = (map_of m k \<noteq> None)"

definition map_size :: "('k, 'v) jsmap \<Rightarrow> nat" where
  "map_size m = length m"

text \<open>
  \<open>Array.prototype.sort\<close> with the comparator \<open>(a, b) => b.f - a.f\<close>: a stable
  sort into descending order of \<open>f\<close>. Elements with equal \<open>f\<close> keep their order.
\<close>

definition sort_desc :: "('a \<Rightarrow> nat) \<Rightarrow> 'a list \<Rightarrow> 'a list" where
  "sort_desc f xs = sort_key (\<lambda>x. - int (f x)) xs"

section \<open>Identifier extraction\<close>

definition IDENTIFIER_KEYS :: "string list" where
  "IDENTIFIER_KEYS = [''part number'', ''part'', ''sku'', ''pn'', ''component'', ''item'',
     ''id'', ''mpn'', ''manufacturer part number'']"



text \<open>
  The loop \<open>for (const candidate of IDENTIFIER_KEYS)\<close>: the first candidate whose
  entry in the lower-cased view is truthy (present and not the empty string) decides.
\<close>

fun first_candidate :: "string_ops \<Rightarrow> (string \<rightharpoonup> string) \<Rightarrow> string list \<Rightarrow> string option" where
  "first_candidate S lowerMap [] = None"
| "first_candidate S lowerMap (candidate # rest) =
     (case lowerMap candidate of
        None \<Rightarrow> first_candidate S lowerMap rest
      | Some v \<Rightarrow>
          if v \<noteq> [] then Some (toUpperCase S v) else first_candidate S lowerMap rest)"

definition extractIdentifier :: "string_ops \<Rightarrow> jsrecord \<Rightarrow> string" where
  "extractIdentifier S record =
     (let entries = Object_entries record;
          lowerMap = fromEntries (map (\<lambda>(key, value). (toLowerCase S key, value)) entries)
      in case first_candidate S lowerMap IDENTIFIER_KEYS of
           Some ident \<Rightarrow> ident
         | None \<Rightarrow>
             (case entries of
                [] \<Rightarrow> []
              | (key, firstValue) # _ \<Rightarrow>
                  if firstValue \<noteq> [] then toUpperCase S firstValue else []))"

section \<open>Match engine\<close>

record catalogFile =
  catalog_id :: string
  catalog_name :: string
  records :: "jsrecord list"
  uploadedAt :: nat

record foundEntry =
  requested :: jsrecord
  catalog :: jsrecord

record missingEntry =
  missing_record :: jsrecord
  reason :: string

record matchResult =
  found :: "foundEntry list"
  missing :: "missingEntry list"

text \<open>The first \<open>forEach\<close>: the catalog index, a \<open>Map\<close> from identifier to record.\<close>

definition index_step ::
    "string_ops \<Rightarrow> (string, jsrecord) jsmap \<Rightarrow> jsrecord \<Rightarrow> (string, jsrecord) jsmap" where
  "index_step S catalogIndex record =
     (let identifier = extractIdentifier S record
      in if identifier \<noteq> [] then map_set identifier record catalogIndex else catalogIndex)"

definition build_index :: "string_ops \<Rightarrow> jsrecord list \<Rightarrow> (string, jsrecord) jsmap" where
  "build_index S rs = foldl (index_step S) [] rs"

text \<open>The second \<open>forEach\<close>: each client record is pushed onto one of the two arrays.\<close>

definition classify_step ::
    "string_ops \<Rightarrow> (string, jsrecord) jsmap \<Rightarrow> matchResult \<Rightarrow> jsrecord \<Rightarrow> matchResult" where
  "classify_step S catalogIndex acc record =
     (let identifier = extractIdentifier S record
      in if identifier = [] then
           acc\<lparr>missing := missing acc @
             [\<lparr>missing_record = record, reason = ''No identifier detected''\<rparr>]\<rparr>
         else
           (case map_get catalogIndex identifier of
              Some c \<Rightarrow> acc\<lparr>found := found acc @ [\<lparr>requested = record, catalog = c\<rparr>]\<rparr>
            | None \<Rightarrow> acc\<lparr>missing := missing acc @
                [\<lparr>missing_record = record, reason = ''Not present in catalog''\<rparr>]\<rparr>))"

definition computeMatchResult ::
    "string_ops \<Rightarrow> catalogFile option \<Rightarrow> jsrecord list \<Rightarrow> matchResult" where
  "computeMatchResult S activeCatalog clientRecords =
     (case activeCatalog of
        None \<Rightarrow> \<lparr>found = [], missing = []\<rparr>
      | Some cat \<Rightarrow>
          if length clientRecords = 0 then \<lparr>found = [], missing = []\<rparr>
          else foldl (classify_step S (build_index S (records cat)))
                 \<lparr>found = [], missing = []\<rparr> clientRecords)"

section \<open>Request insights\<close>

record duplicateEntry =
  dup_identifier :: string
  occurrences :: nat

record requestInsights =
  uniqueCount :: int
  duplicateCount :: int
  unidentifiedCount :: nat
  duplicates :: "duplicateEntry list"

text \<open>The three variables that the \<open>forEach\<close> of \<open>requestInsights\<close> updates.\<close>

record insightState =
  identifierCounts :: "(string, nat) jsmap"
  duplicateMap :: "(string, duplicateEntry) jsmap"
  unidentified :: nat

text \<open>\<open>const key = identifier || `row-${index}`\<close>\<close>

definition request_key :: "string_ops \<Rightarrow> nat \<Rightarrow> jsrecord \<Rightarrow> string" where
  "request_key S index record =
     (let identifier = extractIdentifier S record
      in if identifier \<noteq> [] then identifier else ''row-'' @ decimal index)"

definition duplicate_label :: "string_ops \<Rightarrow> nat \<Rightarrow> jsrecord \<Rightarrow> string" where
  "duplicate_label S index record =
     (let identifier = extractIdentifier S record
      in if identifier \<noteq> [] then identifier else ''Unidentified row '' @ decimal (index + 1))"

definition insight_step :: "string_ops \<Rightarrow> insightState \<Rightarrow> nat \<times> jsrecord \<Rightarrow> insightState" where
  "insight_step S st p =
     (case p of (index, record) \<Rightarrow>
        let identifier = extractIdentifier S record;
            key = request_key S index record;
            unidentified' = (if identifier = [] then unidentified st + 1 else unidentified st);
            current = (case map_get (identifierCounts st) key of None \<Rightarrow> 0 | Some c \<Rightarrow> c);
            counts' = map_set key (current + 1) (identifierCounts st);
            duplicates' =
              (if current \<ge> 1 then
                 map_set key \<lparr>dup_identifier = duplicate_label S index record,
                              occurrences = current + 1\<rparr> (duplicateMap st)
               else duplicateMap st)
        in \<lparr>identifierCounts = counts', duplicateMap = duplicates',
            unidentified = unidentified'\<rparr>)"

definition insight_loop :: "string_ops \<Rightarrow> (nat \<times> jsrecord) list \<Rightarrow> insightState" where
  "insight_loop S ps =
     foldl (insight_step S) \<lparr>identifierCounts = [], duplicateMap = [], unidentified = 0\<rparr> ps"

definition computeRequestInsights :: "string_ops \<Rightarrow> jsrecord list \<Rightarrow> requestInsights" where
  "computeRequestInsights S clientRecords =
     (if length clientRecords = 0 then
        \<lparr>uniqueCount = 0, duplicateCount = 0, unidentifiedCount = 0, duplicates = []\<rparr>
      else
        let st = insight_loop S (enumerate 0 clientRecords)
        in \<lparr>uniqueCount = int (map_size (identifierCounts st)),
            duplicateCount = int (length clientRecords) - int (map_size (identifierCounts st)),
            unidentifiedCount = unidentified st,
            duplicates = sort_desc occurrences (map snd (duplicateMap st))\<rparr>)"

section \<open>Numbers\<close>

text \<open>
  A JavaScript Number is an IEEE 754 double. The finite values are modelled as
  rationals, and an arithmetic operation as the exact operation followed by rounding to
  the nearest double, ties to the even significand: \<open>float_round\<close>. A positive \<open>x\<close>
  lies in the binade \<open>2 ^ e \<le> x < 2 ^ (e + 1)\<close>, where the doubles are the multiples of
  \<open>2 ^ (e - 52)\<close>. The exponent range is not modelled (no overflow, no subnormal
  numbers): the operands here are array lengths and their quotients. Division is used
  with a non-zero divisor only.
\<close>

definition binade :: "rat \<Rightarrow> int" where
  "binade x =
     (if 1 \<le> x then int (floorlog 2 (nat \<lfloor>x\<rfloor>)) - 1
      else - int (floorlog 2 (nat (\<lceil>1 / x\<rceil> - 1))))"

definition round_half_even :: "rat \<Rightarrow> int" where
  "round_half_even x =
     (let f = \<lfloor>x\<rfloor>; d = x - of_int f
      in if d < 1 / 2 then f else if 1 / 2 < d then f + 1 else if even f then f else f + 1)"

definition float_round :: "rat \<Rightarrow> rat" where
  "float_round x =
     (if x = 0 then 0
      else let ulp = 2 powi (binade \<bar>x\<bar> - 52)
           in sgn x * of_int (round_half_even (\<bar>x\<bar> / ulp)) * ulp)"

definition number_div :: "rat \<Rightarrow> rat \<Rightarrow> rat" where
  "number_div a b = float_round (a / b)"

definition number_mul :: "rat \<Rightarrow> rat \<Rightarrow> rat" where
  "number_mul a b = float_round (a * b)"

text \<open>\<open>Math.round\<close>: the nearest integer, a tie going towards plus infinity.\<close>

definition Math_round :: "rat \<Rightarrow> int" where
  "Math_round x = \<lfloor>x + 1 / 2\<rfloor>"

text \<open>The expression \<open>Math.round((count / n) * 100)\<close>, which the source has three times.\<close>

definition percentage_of :: "nat \<Rightarrow> nat \<Rightarrow> int" where
  "percentage_of k n = Math_round (number_mul (number_div (of_nat k) (of_nat n)) 100)"

section \<open>Coverage statistics\<close>



section \<open>Field resolver and top distributions\<close>











section \<open>Notions used to state the properties\<close>

text \<open>The last record of a list that has a given identifier, if there is one.\<close>

definition last_with_identifier :: "string_ops \<Rightarrow> string \<Rightarrow> jsrecord list \<Rightarrow> jsrecord option" where
  "last_with_identifier S i rs =
     (let xs = filter (\<lambda>r. extractIdentifier S r = i) rs
      in if xs = [] then None else Some (last xs))"

text \<open>A client record is found when its identifier is not empty and is a key of the index.\<close>

definition is_found :: "string_ops \<Rightarrow> (string, jsrecord) jsmap \<Rightarrow> jsrecord \<Rightarrow> bool" where
  "is_found S catalogIndex r =
     (extractIdentifier S r \<noteq> [] \<and> map_has catalogIndex (extractIdentifier S r))"

definition missing_reason :: "string_ops \<Rightarrow> jsrecord \<Rightarrow> string" where
  "missing_reason S r =
     (if extractIdentifier S r = [] then ''No identifier detected''
      else ''Not present in catalog'')"

text \<open>
  The values of the fields of a list of fields whose name is \<open>c\<close> up to case, in the
  order of the list, and the fields of a record whose name is one of the priority
  identifier names up to case.
\<close>

definition field_values :: "string_ops \<Rightarrow> string \<Rightarrow> (string \<times> string) list \<Rightarrow> string list" where
  "field_values S c es = map snd (filter (\<lambda>(k, v). toLowerCase S k = c) es)"

definition priority_fields :: "string_ops \<Rightarrow> jsrecord \<Rightarrow> (string \<times> string) list" where
  "priority_fields S r = filter (\<lambda>(k, v). toLowerCase S k \<in> set IDENTIFIER_KEYS) r"

text \<open>The invariant of a Record of the data model: no field has an empty value.\<close>

definition sanitized :: "jsrecord \<Rightarrow> bool" where
  "sanitized r = list_all (\<lambda>(k, v). v \<noteq> []) r"

text \<open>A record none of whose field names is an array index: it is enumerated as created.\<close>

definition no_index_keys :: "jsrecord \<Rightarrow> bool" where
  "no_index_keys r = list_all (\<lambda>p. \<not> is_index_field p) r"

text \<open>The lower-cased view that \<open>extractIdentifier\<close> builds from the entries.\<close>

definition lowerMap_of :: "string_ops \<Rightarrow> (string \<times> string) list \<Rightarrow> (string \<rightharpoonup> string)" where
  "lowerMap_of S es = fromEntries (map (\<lambda>(key, value). (toLowerCase S key, value)) es)"

text \<open>The same fields with every value upper-cased.\<close>

definition upper_values :: "string_ops \<Rightarrow> (string \<times> string) list \<Rightarrow> (string \<times> string) list" where
  "upper_values S r = map (\<lambda>(k, v). (k, toUpperCase S v)) r"

text \<open>
  The indexed rows that have a given key; the number of client records that have a
  given identifier; the keys of all rows of a request set; and the canonical strings:
  the non-empty strings without an ASCII lower-case letter.
\<close>

definition with_key :: "string_ops \<Rightarrow> string \<Rightarrow> (nat \<times> jsrecord) list \<Rightarrow> (nat \<times> jsrecord) list" where
  "with_key S k ps = filter (\<lambda>(i, r). request_key S i r = k) ps"

definition occurrences_of :: "string_ops \<Rightarrow> string \<Rightarrow> jsrecord list \<Rightarrow> nat" where
  "occurrences_of S i rs = length (filter (\<lambda>r. extractIdentifier S r = i) rs)"

definition request_keys :: "string_ops \<Rightarrow> jsrecord list \<Rightarrow> string list" where
  "request_keys S rs = map (\<lambda>(i, r). request_key S i r) (enumerate 0 rs)"

definition canonical :: "string \<Rightarrow> bool" where
  "canonical k = (k \<noteq> [] \<and> list_all (\<lambda>c. \<not> is_lower c) k)"








section \<open>Concrete inputs\<close>

definition scenario1_catalog :: catalogFile where
  "scenario1_catalog = \<lparr>catalog_id = ''c1'', catalog_name = ''catalog.csv'',
     records = [[(''Part Number'', ''ABC-1''), (''Manufacturer'', ''Acme'')]], uploadedAt = 0\<rparr>"

definition scenario1_clients :: "jsrecord list" where
  "scenario1_clients = [[(''PN'', ''abc-1'')], [(''SKU'', ''X9'')]]"

definition empty_catalog :: catalogFile where
  "empty_catalog = \<lparr>catalog_id = ''c2'', catalog_name = ''empty.csv'',
     records = [], uploadedAt = 0\<rparr>"

definition scenario2_clients :: "jsrecord list" where
  "scenario2_clients = [[(''SKU'', ''X9'')]]"

definition scenario5_records :: "jsrecord list" where
  "scenario5_records = [[(''PN'', ''A1''), (''Manufacturer'', ''Acme'')],
     [(''PN'', ''A1''), (''Manufacturer'', ''Bolt'')]]"

definition example_record :: jsrecord where
  "example_record = [(''Notes'', ''spare''), (''Sku'', ''x9''), (''PART'', ''ab-1'')]"

definition recase :: "string \<Rightarrow> string" where
  "recase k = (if k = ''PART'' then ''Part'' else k)"

definition scenario3_record :: jsrecord where
  "scenario3_record = [(''Notes'', ''loose part, no id'')]"

definition year_record :: jsrecord where
  "year_record = [(''Notes'', ''spare''), (''2023'', ''y'')]"

definition scenario4_clients :: "jsrecord list" where
  "scenario4_clients = [[(''PN'', ''A1'')], [(''PN'', ''a1'')]]"

definition mixed_clients :: "jsrecord list" where
  "mixed_clients = [[(''PN'', ''A1'')], [(''PN'', ''a1'')], [], []]"






section \<open>The catalog index\<close>

lemma map_of_map_set: "map_of (map_set k v m) = (map_of m)(k \<mapsto> v)"
  by (induction m) (auto simp: fun_eq_iff)

lemma map_get_map_set: "map_get (map_set k v m) k' = (if k' = k then Some v else map_get m k')"
  by (simp add: map_get_def map_of_map_set)

lemma map_get_index_step:
  "map_get (index_step S m r) i =
     (if extractIdentifier S r = i \<and> i \<noteq> [] then Some r else map_get m i)"
  by (auto simp: index_step_def Let_def map_get_map_set)


lemma last_with_identifier_snoc:
  "last_with_identifier S i (rs @ [r]) =
     (if extractIdentifier S r = i then Some r else last_with_identifier S i rs)"
  by (simp add: last_with_identifier_def Let_def)

lemma map_get_foldl_index_step:
  "map_get (foldl (index_step S) m rs) i =
     (if i = [] then map_get m i
      else case last_with_identifier S i rs of None \<Rightarrow> map_get m i | Some r \<Rightarrow> Some r)"
proof (induction rs rule: rev_induct)
  case Nil
  show ?case by (simp add: last_with_identifier_def)
next
  case (snoc r rs)
  show ?case
  proof (cases "i = []")
    case True
    with snoc.IH show ?thesis by (simp add: map_get_index_step)
  next
    case False
    with snoc.IH show ?thesis
      by (simp add: map_get_index_step last_with_identifier_snoc split: option.splits)
  qed
qed

lemma map_get_build_index:
  "map_get (build_index S rs) i = (if i = [] then None else last_with_identifier S i rs)"
  by (simp add: build_index_def map_get_foldl_index_step split: option.splits)
    (simp add: map_get_def)

lemma foldl_index_step_skip:
  "foldl (index_step S) m (filter (\<lambda>r. extractIdentifier S r \<noteq> []) rs) = foldl (index_step S) m rs"
  by (induction rs arbitrary: m) (auto simp: index_step_def)

text \<open>
  C5. The index is built from the catalog records in order. Records with an empty
  identifier are skipped: the index is the one built from the other records, and the
  empty identifier is never a key. For a non-empty identifier the lookup gives the last
  catalog record that has it (last write wins), and nothing when no record has it.
\<close>

theorem catalog_index_last_write_wins:
  "build_index S (filter (\<lambda>r. extractIdentifier S r \<noteq> []) rs) = build_index S rs
   \<and> map_get (build_index S rs) [] = None
   \<and> (i \<noteq> [] \<longrightarrow> map_get (build_index S rs) i = last_with_identifier S i rs)
   \<and> map_has (build_index S rs) i = (map_get (build_index S rs) i \<noteq> None)"
proof (intro conjI)
  show "build_index S (filter (\<lambda>r. extractIdentifier S r \<noteq> []) rs) = build_index S rs"
    by (simp add: build_index_def foldl_index_step_skip)
  show "map_get (build_index S rs) [] = None"
    by (simp add: map_get_build_index)
  show "i \<noteq> [] \<longrightarrow> map_get (build_index S rs) i = last_with_identifier S i rs"
    by (simp add: map_get_build_index)
  show "map_has (build_index S rs) i = (map_get (build_index S rs) i \<noteq> None)"
    by (simp add: map_has_def map_get_def)
qed

theorem catalog_index_last_write_wins_witness:
  "''A1'' \<noteq> [] \<and> map_get (build_index ascii_ops scenario5_records) ''A1'' =
     Some [(''PN'', ''A1''), (''Manufacturer'', ''Bolt'')]"
proof -
  have l: "last_with_identifier ascii_ops ''A1'' scenario5_records =
      Some [(''PN'', ''A1''), (''Manufacturer'', ''Bolt'')]"
    by code_simp
  from catalog_index_last_write_wins [of ascii_ops scenario5_records "''A1''"] l
  show ?thesis by simp
qed

section \<open>Properties of the match engine\<close>


lemma classify_step_found:
  "found (classify_step S idx acc r) =
     found acc @ (if is_found S idx r
       then [\<lparr>requested = r, catalog = the (map_get idx (extractIdentifier S r))\<rparr>] else [])"
  by (auto simp: classify_step_def is_found_def map_has_def map_get_def Let_def
      split: option.splits)

lemma classify_step_missing:
  "missing (classify_step S idx acc r) =
     missing acc @ (if is_found S idx r then []
       else [\<lparr>missing_record = r, reason = missing_reason S r\<rparr>])"
  by (auto simp: classify_step_def is_found_def map_has_def map_get_def Let_def
      missing_reason_def split: option.splits)

lemma foldl_classify_found:
  "found (foldl (classify_step S idx) acc rs) =
     found acc @ map (\<lambda>r. \<lparr>requested = r, catalog = the (map_get idx (extractIdentifier S r))\<rparr>)
       (filter (is_found S idx) rs)"
  by (induction rs arbitrary: acc) (simp_all add: classify_step_found)

lemma foldl_classify_missing:
  "missing (foldl (classify_step S idx) acc rs) =
     missing acc @ map (\<lambda>r. \<lparr>missing_record = r, reason = missing_reason S r\<rparr>)
       (filter (\<lambda>r. \<not> is_found S idx r) rs)"
  by (induction rs arbitrary: acc) (simp_all add: classify_step_missing)

lemma match_found:
  "found (computeMatchResult S (Some cat) rs) =
     map (\<lambda>r. \<lparr>requested = r,
           catalog = the (map_get (build_index S (records cat)) (extractIdentifier S r))\<rparr>)
       (filter (is_found S (build_index S (records cat))) rs)"
  by (cases rs) (simp_all add: computeMatchResult_def foldl_classify_found del: foldl_Cons)

lemma match_missing:
  "missing (computeMatchResult S (Some cat) rs) =
     map (\<lambda>r. \<lparr>missing_record = r, reason = missing_reason S r\<rparr>)
       (filter (\<lambda>r. \<not> is_found S (build_index S (records cat)) r) rs)"
  by (cases rs) (simp_all add: computeMatchResult_def foldl_classify_missing del: foldl_Cons)

lemma is_found_empty_index: "\<not> is_found S (build_index S []) r"
  by (simp add: is_found_def build_index_def map_has_def)

text \<open>
  C1, as amended. When a catalog is active, or the request set is empty, the two lists
  together have as many entries as there are client records.
\<close>

theorem match_partition_size:
  "activeCatalog \<noteq> None \<or> clientRecords = [] \<Longrightarrow>
   length (found (computeMatchResult S activeCatalog clientRecords)) +
   length (missing (computeMatchResult S activeCatalog clientRecords)) = length clientRecords"
proof (cases activeCatalog)
  case None
  assume "activeCatalog \<noteq> None \<or> clientRecords = []"
  with None show ?thesis by (simp add: computeMatchResult_def)
next
  case (Some cat)
  show ?thesis unfolding Some
    by (simp add: match_found match_missing sum_length_filter_compl)
qed

theorem match_partition_size_witness:
  "Some scenario1_catalog \<noteq> None \<and>
   length (found (computeMatchResult ascii_ops (Some scenario1_catalog) scenario1_clients)) +
   length (missing (computeMatchResult ascii_ops (Some scenario1_catalog) scenario1_clients)) = 2"
proof -
  have n: "length scenario1_clients = 2" by (simp add: scenario1_clients_def)
  from match_partition_size [of "Some scenario1_catalog" scenario1_clients ascii_ops] n
  show ?thesis by simp
qed

text \<open>
  C1, as stated, fails: with no active catalog and one client record both lists are
  empty, so their lengths add up to 0 and not to 1.
\<close>

theorem match_partition_size_counterexample:
  "length (found (computeMatchResult ascii_ops None scenario2_clients)) +
   length (missing (computeMatchResult ascii_ops None scenario2_clients)) \<noteq> length scenario2_clients"
  by (simp add: computeMatchResult_def scenario2_clients_def)

text \<open>
  C2, as amended. With no active catalog, or with an empty request set, the result is
  the pair of two empty lists. An active catalog without records is not such a case:
  then nothing is found and every client record is reported missing. The match
  computation has no failing branch: it is a total function to \<^typ>\<open>matchResult\<close>.
\<close>

theorem match_degenerate_inputs:
  "(activeCatalog = None \<or> clientRecords = [] \<longrightarrow>
      computeMatchResult S activeCatalog clientRecords = \<lparr>found = [], missing = []\<rparr>)
   \<and> (records cat = [] \<longrightarrow>
      found (computeMatchResult S (Some cat) clientRecords) = []
      \<and> map missing_record (missing (computeMatchResult S (Some cat) clientRecords))
          = clientRecords)"
proof (intro conjI impI)
  assume "activeCatalog = None \<or> clientRecords = []"
  then show "computeMatchResult S activeCatalog clientRecords = \<lparr>found = [], missing = []\<rparr>"
    by (auto simp: computeMatchResult_def split: option.splits)
next
  assume "records cat = []"
  then show "found (computeMatchResult S (Some cat) clientRecords) = []"
    by (simp add: match_found is_found_empty_index)
next
  assume "records cat = []"
  then show "map missing_record (missing (computeMatchResult S (Some cat) clientRecords))
      = clientRecords"
    by (simp add: match_missing is_found_empty_index comp_def)
qed

theorem match_degenerate_inputs_witness:
  "computeMatchResult ascii_ops None scenario2_clients = \<lparr>found = [], missing = []\<rparr> \<and>
   records empty_catalog = [] \<and>
   found (computeMatchResult ascii_ops (Some empty_catalog) scenario2_clients) = [] \<and>
   map missing_record (missing (computeMatchResult ascii_ops (Some empty_catalog) scenario2_clients))
     = [[(''SKU'', ''X9'')]]"
proof -
  have e: "records empty_catalog = []" by (simp add: empty_catalog_def)
  from match_degenerate_inputs [of None scenario2_clients ascii_ops empty_catalog]
    match_degenerate_inputs [of "Some empty_catalog" scenario2_clients ascii_ops empty_catalog] e
  show ?thesis by (simp add: scenario2_clients_def)
qed

text \<open>
  C2, as stated, fails for an active catalog that is empty: the client record is
  reported missing, so the missing list is not empty.
\<close>

theorem match_degenerate_inputs_counterexample:
  "records empty_catalog = [] \<and>
   missing (computeMatchResult ascii_ops (Some empty_catalog) scenario2_clients) =
     [\<lparr>missing_record = [(''SKU'', ''X9'')], reason = ''Not present in catalog''\<rparr>]"
  by (simp add: empty_catalog_def) code_simp

text \<open>
  C3. With an active catalog and a non-empty request set, the requested records of
  the found list are exactly the client records that are found, in their original
  order, and the records of the missing list are exactly the others, in their original
  order; each found entry carries the catalog record that the index holds for its
  identifier; each missing entry carries the reason "No identifier detected" when its
  identifier is empty and "Not present in catalog" otherwise.
\<close>

theorem match_classification:
  assumes "activeCatalog = Some cat" and "clientRecords \<noteq> []"
  shows "map requested (found (computeMatchResult S activeCatalog clientRecords))
           = filter (is_found S (build_index S (records cat))) clientRecords
       \<and> map missing_record (missing (computeMatchResult S activeCatalog clientRecords))
           = filter (\<lambda>r. \<not> is_found S (build_index S (records cat)) r) clientRecords
       \<and> (\<forall>f \<in> set (found (computeMatchResult S activeCatalog clientRecords)).
            map_get (build_index S (records cat)) (extractIdentifier S (requested f))
              = Some (catalog f))
       \<and> (\<forall>m \<in> set (missing (computeMatchResult S activeCatalog clientRecords)).
            reason m =
              (if extractIdentifier S (missing_record m) = [] then ''No identifier detected''
               else ''Not present in catalog''))"
  unfolding assms(1)
  by (auto simp: match_found match_missing comp_def is_found_def map_has_def map_get_def
      missing_reason_def)

theorem match_classification_witness:
  "scenario1_clients \<noteq> [] \<and>
   map requested (found (computeMatchResult ascii_ops (Some scenario1_catalog) scenario1_clients))
     = [[(''PN'', ''abc-1'')]] \<and>
   map missing_record (missing (computeMatchResult ascii_ops (Some scenario1_catalog) scenario1_clients))
     = [[(''SKU'', ''X9'')]]"
proof -
  have h: "scenario1_clients \<noteq> []" by (simp add: scenario1_clients_def)
  have f: "filter (is_found ascii_ops (build_index ascii_ops (records scenario1_catalog))) scenario1_clients
      = [[(''PN'', ''abc-1'')]]"
    by code_simp
  have m: "filter (\<lambda>r. \<not> is_found ascii_ops (build_index ascii_ops (records scenario1_catalog)) r)
      scenario1_clients = [[(''SKU'', ''X9'')]]"
    by code_simp
  from match_classification [where S = ascii_ops and cat = scenario1_catalog, OF refl h] f m h
  show ?thesis by simp
qed


section \<open>Case mappings\<close>

lemma upper_case_idem:
  "upper_case_mapping S \<Longrightarrow> toUpperCase S (toUpperCase S s) = toUpperCase S s"
  by (simp add: upper_case_mapping_def)

lemma upper_case_Nil_iff:
  "upper_case_mapping S \<Longrightarrow> toUpperCase S s = [] \<longleftrightarrow> s = []"
  by (simp add: upper_case_mapping_def)

lemma upper_case_no_lower:
  "upper_case_mapping S \<Longrightarrow> c \<in> set (toUpperCase S s) \<Longrightarrow> \<not> is_lower c"
  by (simp add: upper_case_mapping_def)

lemma upper_char_not_lower: "\<not> is_lower (upper_char c)"
  by (auto simp: upper_char_def is_lower_def)

lemma upper_char_idem: "upper_char (upper_char c) = upper_char c"
  using upper_char_not_lower [of c] by (simp add: upper_char_def [of "upper_char c"])

text \<open>The ASCII methods have the properties of an upper-case mapping.\<close>

lemma ascii_upper_case_mapping: "upper_case_mapping ascii_ops"
  by (auto simp: upper_case_mapping_def ascii_ops_def upper_char_idem upper_char_not_lower)

section \<open>Enumeration order\<close>

lemma set_Object_entries: "set (Object_entries r) = set r"
  by (auto simp: Object_entries_def)

lemma Object_entries_no_index:
  assumes "no_index_keys r"
  shows "Object_entries r = r"
proof -
  have a: "filter is_index_field r = []"
    using assms by (simp add: no_index_keys_def list_all_iff filter_empty_conv)
  have b: "filter (\<lambda>p. \<not> is_index_field p) r = r"
    using assms by (simp add: no_index_keys_def list_all_iff filter_id_conv)
  show ?thesis by (simp add: Object_entries_def a b)
qed

lemma insort_key_map:
  "insort_key g (h x) (map h xs) = map h (insort_key (\<lambda>x. g (h x)) x xs)"
  by (induction xs) simp_all

lemma sort_key_map: "sort_key g (map h xs) = map h (sort_key (\<lambda>x. g (h x)) xs)"
  by (induction xs) (simp_all add: insort_key_map)

lemma Object_entries_rename:
  assumes "\<And>k. array_index (f k) = array_index k"
  shows "Object_entries (map (\<lambda>(k, v). (f k, v)) r) = map (\<lambda>(k, v). (f k, v)) (Object_entries r)"
proof -
  let ?h = "\<lambda>(k, v). (f k, v)"
  have i: "is_index_field (?h p) = is_index_field p" and o: "index_of (?h p) = index_of p" for p
    by (simp_all add: is_index_field_def index_of_def case_prod_unfold assms)
  show ?thesis
    by (simp add: Object_entries_def filter_map sort_key_map comp_def i o)
qed

section \<open>Properties of identifier extraction\<close>

lemma fromEntries_map_of: "fromEntries es = map_of (rev es)"
proof -
  have "foldl (\<lambda>m (k, v). m(k \<mapsto> v)) m es = m ++ map_of (rev es)" for m
    by (induction es arbitrary: m)
      (auto simp: map_add_upd_left fun_eq_iff map_add_def split: option.splits)
  then show ?thesis by (simp add: fromEntries_def)
qed

lemma field_values_snoc:
  "field_values S c (es @ [(k, v)]) =
     field_values S c es @ (if toLowerCase S k = c then [v] else [])"
  by (simp add: field_values_def)

lemma lowerMap_of_lookup:
  "lowerMap_of S es c =
     (if field_values S c es = [] then None else Some (last (field_values S c es)))"
proof (induction es rule: rev_induct)
  case Nil
  show ?case by (simp add: lowerMap_of_def fromEntries_map_of field_values_def)
next
  case (snoc x es)
  obtain k v where x: "x = (k, v)" by (cases x)
  have "lowerMap_of S (es @ [x]) c =
      (if toLowerCase S k = c then Some v else lowerMap_of S es c)"
    by (simp add: lowerMap_of_def fromEntries_map_of x)
  with snoc show ?case by (simp add: x field_values_snoc)
qed

lemma first_candidate_find:
  "first_candidate S m cs =
     (case find (\<lambda>c. \<exists>v. m c = Some v \<and> v \<noteq> []) cs of
        None \<Rightarrow> None | Some c \<Rightarrow> Some (toUpperCase S (the (m c))))"
  by (induction cs) (auto split: option.splits)

lemma extractIdentifier_lowerMap:
  "extractIdentifier S r =
     (case first_candidate S (lowerMap_of S (Object_entries r)) IDENTIFIER_KEYS of
        Some ident \<Rightarrow> ident
      | None \<Rightarrow>
          (case Object_entries r of
             [] \<Rightarrow> []
           | (k, v) # _ \<Rightarrow> if v = [] then [] else toUpperCase S v))"
  by (auto simp: extractIdentifier_def lowerMap_of_def Let_def
      split: option.splits list.splits)

lemma field_values_empty_iff:
  "field_values S c es = [] \<longleftrightarrow> (\<forall>(k, v) \<in> set es. toLowerCase S k \<noteq> c)"
  by (auto simp: field_values_def filter_empty_conv)

lemma field_values_entries_empty_iff:
  "field_values S c (Object_entries r) = [] \<longleftrightarrow> field_values S c r = []"
  by (simp add: field_values_empty_iff set_Object_entries)

lemma field_values_subset: "set (field_values S c es) \<subseteq> snd ` set es"
  by (auto simp: field_values_def)

lemma sanitized_field_values:
  assumes "sanitized r" and "field_values S c (Object_entries r) \<noteq> []"
  shows "last (field_values S c (Object_entries r)) \<noteq> []"
proof -
  have "last (field_values S c (Object_entries r)) \<in> snd ` set (Object_entries r)"
    using assms(2) field_values_subset last_in_set by blast
  with assms(1) show ?thesis
    by (auto simp: sanitized_def list_all_iff set_Object_entries)
qed

lemma sanitized_usable:
  assumes "sanitized r"
  shows "(\<exists>v. lowerMap_of S (Object_entries r) c = Some v \<and> v \<noteq> [])
     \<longleftrightarrow> field_values S c r \<noteq> []"
  using sanitized_field_values [OF assms, of S c]
  by (auto simp: lowerMap_of_lookup field_values_entries_empty_iff)

lemma priority_fields_Nil_iff:
  "priority_fields S r = [] \<longleftrightarrow> (\<forall>c \<in> set IDENTIFIER_KEYS. field_values S c r = [])"
  by (auto simp: priority_fields_def field_values_def filter_empty_conv)

lemma extractIdentifier_priority:
  assumes "sanitized r" and "priority_fields S r \<noteq> []"
  shows "\<exists>c. find (\<lambda>c. field_values S c r \<noteq> []) IDENTIFIER_KEYS = Some c
           \<and> extractIdentifier S r = toUpperCase S (last (field_values S c (Object_entries r)))"
proof -
  from assms(2) obtain c' where "c' \<in> set IDENTIFIER_KEYS" "field_values S c' r \<noteq> []"
    by (auto simp: priority_fields_Nil_iff)
  then obtain c where c: "find (\<lambda>c. field_values S c r \<noteq> []) IDENTIFIER_KEYS = Some c"
    by (cases "find (\<lambda>c. field_values S c r \<noteq> []) IDENTIFIER_KEYS") (auto simp: find_None_iff)
  then have nonempty: "field_values S c (Object_entries r) \<noteq> []"
    by (auto simp: find_Some_iff field_values_entries_empty_iff)
  have "first_candidate S (lowerMap_of S (Object_entries r)) IDENTIFIER_KEYS
      = Some (toUpperCase S (last (field_values S c (Object_entries r))))"
    by (simp add: first_candidate_find sanitized_usable [OF assms(1)] c)
      (simp add: lowerMap_of_lookup nonempty)
  with c show ?thesis by (simp add: extractIdentifier_lowerMap)
qed

lemma extractIdentifier_fallback:
  assumes "priority_fields S r = []"
  shows "extractIdentifier S r =
     (case Object_entries r of [] \<Rightarrow> [] | (k, v) # _ \<Rightarrow> if v = [] then [] else toUpperCase S v)"
proof -
  have "find (\<lambda>c. \<exists>v. lowerMap_of S (Object_entries r) c = Some v \<and> v \<noteq> []) IDENTIFIER_KEYS
      = None"
    using assms
    by (auto simp: find_None_iff priority_fields_Nil_iff lowerMap_of_lookup
        field_values_entries_empty_iff)
  then show ?thesis by (simp add: extractIdentifier_lowerMap first_candidate_find)
qed

lemma extractIdentifier_key_casing:
  assumes "\<And>k. toLowerCase S (f k) = toLowerCase S k"
    and "\<And>k. array_index (f k) = array_index k"
  shows "extractIdentifier S (map (\<lambda>(k, v). (f k, v)) r) = extractIdentifier S r"
proof -
  let ?r' = "map (\<lambda>(k, v). (f k, v)) r"
  have e: "Object_entries ?r' = map (\<lambda>(k, v). (f k, v)) (Object_entries r)"
    using assms(2) by (rule Object_entries_rename)
  have "lowerMap_of S (map (\<lambda>(k, v). (f k, v)) es) = lowerMap_of S es" for es
    by (simp add: lowerMap_of_def comp_def case_prod_unfold assms(1))
  then have "lowerMap_of S (Object_entries ?r') = lowerMap_of S (Object_entries r)"
    by (simp only: e)
  then show ?thesis
    by (cases "Object_entries r")
      (auto simp: extractIdentifier_lowerMap e split: option.splits)
qed


text \<open>
  C4, as amended. For a record whose fields all have non-empty values and that has a
  priority identifier field, \<open>extractIdentifier\<close> returns, upper-cased, the value of the
  field named by the first name of the priority list that names a field of the record
  (when several fields of the record have that name up to case, the last of them in the
  record's own key order). For a record with no priority identifier field it returns the
  value of the field that comes first in the record's own key order, upper-cased, and the
  empty string when the record is empty or that value is empty. The record's own key
  order is the original field order when no field name is an array index. Changing the
  case of the field names does not change the result.
\<close>

theorem extract_identifier_priority_and_fallback:
  "(sanitized r \<and> priority_fields S r \<noteq> [] \<longrightarrow>
      (\<exists>c. find (\<lambda>c. field_values S c r \<noteq> []) IDENTIFIER_KEYS = Some c
         \<and> extractIdentifier S r = toUpperCase S (last (field_values S c (Object_entries r)))))
   \<and> (priority_fields S r = [] \<longrightarrow>
      extractIdentifier S r =
        (case Object_entries r of
           [] \<Rightarrow> [] | (k, v) # _ \<Rightarrow> if v = [] then [] else toUpperCase S v))
   \<and> (priority_fields S r = [] \<and> no_index_keys r \<longrightarrow>
      extractIdentifier S r =
        (case r of [] \<Rightarrow> [] | (k, v) # _ \<Rightarrow> if v = [] then [] else toUpperCase S v))
   \<and> ((\<forall>k. toLowerCase S (f k) = toLowerCase S k \<and> array_index (f k) = array_index k) \<longrightarrow>
      extractIdentifier S (map (\<lambda>(k, v). (f k, v)) r) = extractIdentifier S r)"
proof (intro conjI impI)
  assume "sanitized r \<and> priority_fields S r \<noteq> []"
  then show "\<exists>c. find (\<lambda>c. field_values S c r \<noteq> []) IDENTIFIER_KEYS = Some c
      \<and> extractIdentifier S r = toUpperCase S (last (field_values S c (Object_entries r)))"
    using extractIdentifier_priority [of r S] by simp
next
  assume "priority_fields S r = []"
  then show "extractIdentifier S r =
      (case Object_entries r of
         [] \<Rightarrow> [] | (k, v) # _ \<Rightarrow> if v = [] then [] else toUpperCase S v)"
    by (rule extractIdentifier_fallback)
next
  assume "priority_fields S r = [] \<and> no_index_keys r"
  then show "extractIdentifier S r =
      (case r of [] \<Rightarrow> [] | (k, v) # _ \<Rightarrow> if v = [] then [] else toUpperCase S v)"
    using extractIdentifier_fallback [of S r] Object_entries_no_index [of r] by simp
next
  assume "\<forall>k. toLowerCase S (f k) = toLowerCase S k \<and> array_index (f k) = array_index k"
  then show "extractIdentifier S (map (\<lambda>(k, v). (f k, v)) r) = extractIdentifier S r"
    by (intro extractIdentifier_key_casing) simp_all
qed

theorem extract_identifier_priority_and_fallback_witness:
  "sanitized example_record \<and> priority_fields ascii_ops example_record \<noteq> []
   \<and> extractIdentifier ascii_ops example_record = ''AB-1''
   \<and> priority_fields ascii_ops scenario3_record = [] \<and> no_index_keys scenario3_record
   \<and> extractIdentifier ascii_ops scenario3_record = ''LOOSE PART, NO ID''
   \<and> priority_fields ascii_ops year_record = []
   \<and> extractIdentifier ascii_ops year_record = ''Y''
   \<and> extractIdentifier ascii_ops (map (\<lambda>(k, v). (recase k, v)) example_record) = ''AB-1''"
proof -
  have s: "sanitized example_record" by code_simp
  have p: "priority_fields ascii_ops example_record \<noteq> []" by code_simp
  have f: "find (\<lambda>c. field_values ascii_ops c example_record \<noteq> []) IDENTIFIER_KEYS
      = Some ''part''"
    by code_simp
  have l: "toUpperCase ascii_ops (last (field_values ascii_ops ''part''
      (Object_entries example_record))) = ''AB-1''"
    by code_simp
  have q: "priority_fields ascii_ops scenario3_record = []" by code_simp
  have n: "no_index_keys scenario3_record" by code_simp
  have u: "(case scenario3_record of
      [] \<Rightarrow> [] | (k, v) # _ \<Rightarrow> if v = [] then [] else toUpperCase ascii_ops v)
      = ''LOOSE PART, NO ID''"
    by code_simp
  have y: "priority_fields ascii_ops year_record = []" by code_simp
  have e: "(case Object_entries year_record of
      [] \<Rightarrow> [] | (k, v) # _ \<Rightarrow> if v = [] then [] else toUpperCase ascii_ops v) = ''Y''"
    by code_simp
  have c1: "toLowerCase ascii_ops ''Part'' = toLowerCase ascii_ops ''PART''" by code_simp
  have c2: "array_index ''Part'' = array_index ''PART''" by code_simp
  have c: "\<forall>k. toLowerCase ascii_ops (recase k) = toLowerCase ascii_ops k
      \<and> array_index (recase k) = array_index k"
    using c1 c2 by (simp add: recase_def)
  from extract_identifier_priority_and_fallback [of example_record ascii_ops recase]
    extract_identifier_priority_and_fallback [of scenario3_record ascii_ops recase]
    extract_identifier_priority_and_fallback [of year_record ascii_ops recase]
    s p f l q n u y e c
  show ?thesis by auto
qed

text \<open>
  C4, as stated, fails for a record with a field name that is an array index: the record
  with the fields \<open>Notes\<close> and \<open>2023\<close>, in that order, has no priority identifier
  field, and its identifier is the value of \<open>2023\<close>, not the value of its first field.
\<close>

theorem extract_identifier_priority_and_fallback_counterexample:
  "priority_fields ascii_ops year_record = []
   \<and> toUpperCase ascii_ops (snd (hd year_record)) = ''SPARE''
   \<and> extractIdentifier ascii_ops year_record = ''Y''"
  by code_simp


section \<open>Synthetic row keys\<close>

declare decimal.simps [simp del]

lemma undecimal_decimal: "undecimal (decimal n) = n"
proof (induction n rule: decimal.induct)
  case (1 n)
  show ?case
  proof (cases "n < 10")
    case True
    then show ?thesis by (simp add: decimal.simps [of n] undecimal_def)
  next
    case False
    then have "undecimal (decimal n) = 10 * undecimal (decimal (n div 10)) + n mod 10"
      by (simp add: decimal.simps [of n] undecimal_def)
    with 1 False show ?thesis by simp
  qed
qed

lemma decimal_inj: "decimal i = decimal j \<Longrightarrow> i = j"
  by (metis undecimal_decimal)

lemma is_lower_r: "is_lower CHR ''r''"
  by (simp add: is_lower_def)

lemma toUpperCase_not_row:
  assumes "upper_case_mapping S"
  shows "toUpperCase S s \<noteq> ''row-'' @ t"
proof
  assume "toUpperCase S s = ''row-'' @ t"
  then have "CHR ''r'' \<in> set (toUpperCase S s)" by simp
  then show False using upper_case_no_lower [OF assms] is_lower_r by blast
qed

lemma not_canonical_row: "\<not> canonical (''row-'' @ t)"
  using is_lower_r by (simp add: canonical_def)

lemma extractIdentifier_image:
  "extractIdentifier S r = [] \<or> (\<exists>v. extractIdentifier S r = toUpperCase S v)"
proof (cases "first_candidate S (lowerMap_of S (Object_entries r)) IDENTIFIER_KEYS")
  case None
  show ?thesis
  proof (cases "Object_entries r")
    case Nil
    with None show ?thesis by (simp add: extractIdentifier_lowerMap)
  next
    case (Cons p es)
    obtain k v where p: "p = (k, v)" by (cases p)
    from None Cons have "extractIdentifier S r = (if v = [] then [] else toUpperCase S v)"
      by (simp add: extractIdentifier_lowerMap p)
    then show ?thesis by (cases "v = []") auto
  qed
next
  case (Some ident)
  then show ?thesis
    by (auto simp: extractIdentifier_lowerMap first_candidate_find split: option.splits)
qed

lemma extractIdentifier_upper:
  assumes "upper_case_mapping S"
  shows "toUpperCase S (extractIdentifier S r) = extractIdentifier S r"
  using extractIdentifier_image [of S r] upper_case_idem [OF assms]
    upper_case_Nil_iff [OF assms, of "[]"]
  by auto

lemma extractIdentifier_no_lower:
  assumes "upper_case_mapping S"
  shows "list_all (\<lambda>c. \<not> is_lower c) (extractIdentifier S r)"
  using extractIdentifier_image [of S r] upper_case_no_lower [OF assms]
  by (auto simp: list_all_iff)

lemma canonical_extractIdentifier:
  "upper_case_mapping S \<Longrightarrow> extractIdentifier S r \<noteq> [] \<Longrightarrow> canonical (extractIdentifier S r)"
  by (simp add: canonical_def extractIdentifier_no_lower)

lemma extractIdentifier_not_row:
  assumes "upper_case_mapping S"
  shows "extractIdentifier S r \<noteq> ''row-'' @ t"
proof
  assume e: "extractIdentifier S r = ''row-'' @ t"
  then have "extractIdentifier S r \<noteq> []" by simp
  then have "canonical (extractIdentifier S r)"
    using assms by (rule canonical_extractIdentifier [rotated])
  with e show False using not_canonical_row [of t] by simp
qed

lemma request_key_eq_iff:
  assumes "upper_case_mapping S"
  shows "request_key S i r = request_key S j r' \<longleftrightarrow>
     (extractIdentifier S r \<noteq> [] \<and> extractIdentifier S r = extractIdentifier S r') \<or>
     (extractIdentifier S r = [] \<and> extractIdentifier S r' = [] \<and> i = j)"
  using extractIdentifier_not_row [OF assms, of r "decimal j"]
    extractIdentifier_not_row [OF assms, of r' "decimal i"]
  by (auto simp: request_key_def Let_def dest: decimal_inj)

section \<open>Invariants of the duplicate detection loop\<close>

lemma map_fst_map_set:
  "set (map fst (map_set k v m)) = insert k (set (map fst m))"
proof -
  have "dom (map_of (map_set k v m)) = insert k (dom (map_of m))"
    by (simp add: map_of_map_set)
  then show ?thesis by (simp add: dom_map_of_conv_image_fst)
qed

lemma distinct_map_set:
  "distinct (map fst m) \<Longrightarrow> distinct (map fst (map_set k v m))"
  by (induction m) (auto simp: map_fst_map_set simp flip: set_map)

lemma with_key_snoc:
  "with_key S k (ps @ [(i, r)]) = with_key S k ps @ (if request_key S i r = k then [(i, r)] else [])"
  by (simp add: with_key_def)

lemma insight_loop_snoc: "insight_loop S (ps @ [p]) = insight_step S (insight_loop S ps) p"
  by (simp add: insight_loop_def)

lemma insight_loop_Nil:
  "insight_loop S [] = \<lparr>identifierCounts = [], duplicateMap = [], unidentified = 0\<rparr>"
  by (simp add: insight_loop_def)

lemma counts_lookup:
  "map_of (identifierCounts (insight_loop S ps)) k =
     (if with_key S k ps = [] then None else Some (length (with_key S k ps)))"
proof (induction ps arbitrary: k rule: rev_induct)
  case Nil
  show ?case by (simp add: insight_loop_Nil with_key_def)
next
  case (snoc p ps)
  obtain i r where p: "p = (i, r)" by (cases p)
  show ?case
    using snoc
    by (auto simp: p insight_loop_snoc insight_step_def Let_def map_of_map_set map_get_def
        with_key_snoc split: option.splits)
qed

lemma counts_distinct: "distinct (map fst (identifierCounts (insight_loop S ps)))"
proof (induction ps rule: rev_induct)
  case Nil
  show ?case by (simp add: insight_loop_Nil)
next
  case (snoc p ps)
  then show ?case
    by (cases p) (simp add: insight_loop_snoc insight_step_def Let_def distinct_map_set)
qed

lemma dups_distinct: "distinct (map fst (duplicateMap (insight_loop S ps)))"
proof (induction ps rule: rev_induct)
  case Nil
  show ?case by (simp add: insight_loop_Nil)
next
  case (snoc p ps)
  then show ?case
    by (cases p) (simp add: insight_loop_snoc insight_step_def Let_def distinct_map_set)
qed

lemma dups_lookup:
  "map_of (duplicateMap (insight_loop S ps)) k =
     (if 2 \<le> length (with_key S k ps)
      then Some \<lparr>dup_identifier = (case last (with_key S k ps) of (i, r) \<Rightarrow> duplicate_label S i r),
                 occurrences = length (with_key S k ps)\<rparr>
      else None)"
proof (induction ps rule: rev_induct)
  case Nil
  show ?case by (simp add: insight_loop_Nil with_key_def)
next
  case (snoc p ps)
  obtain i r where p: "p = (i, r)" by (cases p)
  have c: "map_get (identifierCounts (insight_loop S ps)) (request_key S i r) =
      (if with_key S (request_key S i r) ps = [] then None
       else Some (length (with_key S (request_key S i r) ps)))"
    by (simp add: map_get_def counts_lookup)
  show ?case
  proof (cases "request_key S i r = k")
    case True
    show ?thesis
    proof (cases "with_key S k ps = []")
      case True
      with \<open>request_key S i r = k\<close> c show ?thesis
        by (simp add: p insight_loop_snoc insight_step_def Let_def with_key_snoc snoc)
    next
      case False
      then have "1 \<le> length (with_key S k ps)" by (cases "with_key S k ps") auto
      with False \<open>request_key S i r = k\<close> c show ?thesis
        by (simp add: p insight_loop_snoc insight_step_def Let_def with_key_snoc
            map_of_map_set)
    qed
  next
    case False
    then show ?thesis
      by (simp add: p insight_loop_snoc insight_step_def Let_def with_key_snoc snoc
          map_of_map_set)
  qed
qed

lemma unidentified_count:
  "unidentified (insight_loop S ps) = length (filter (\<lambda>r. extractIdentifier S r = []) (map snd ps))"
proof (induction ps rule: rev_induct)
  case Nil
  show ?case by (simp add: insight_loop_Nil)
next
  case (snoc p ps)
  then show ?case
    by (cases p) (simp add: insight_loop_snoc insight_step_def Let_def)
qed

lemma request_key_canonical:
  "canonical k \<Longrightarrow> request_key S i r = k \<longleftrightarrow> extractIdentifier S r = k"
  using not_canonical_row [of "decimal i"]
  by (auto simp: request_key_def Let_def canonical_def)

lemma with_key_canonical:
  assumes "canonical k"
  shows "with_key S k ps = filter (\<lambda>p. extractIdentifier S (snd p) = k) ps"
  unfolding with_key_def
  by (rule filter_cong) (auto simp: request_key_canonical [OF assms])

lemma length_with_key_canonical:
  assumes "canonical k"
  shows "length (with_key S k ps) = occurrences_of S k (map snd ps)"
proof -
  have "map snd (with_key S k ps) = filter (\<lambda>r. extractIdentifier S r = k) (map snd ps)"
    by (simp add: with_key_canonical [OF assms] filter_map comp_def)
  then show ?thesis
    by (metis length_map occurrences_of_def)
qed

lemma with_key_member:
  "p \<in> set (with_key S k ps) \<Longrightarrow> p \<in> set ps \<and> request_key S (fst p) (snd p) = k"
  by (auto simp: with_key_def)

lemma duplicated_key_canonical:
  assumes "upper_case_mapping S"
    and "distinct (map fst ps)" and "2 \<le> length (with_key S k ps)"
  shows "canonical k \<and> (\<exists>p \<in> set ps. extractIdentifier S (snd p) = k)"
proof -
  from assms(3) obtain a b rest where ab: "with_key S k ps = a # b # rest"
    by (cases "with_key S k ps" rule: list.exhaust; cases "tl (with_key S k ps)") auto
  have "distinct (map fst (with_key S k ps))"
    unfolding with_key_def using assms(2) by (rule distinct_map_filter)
  with ab have neq: "fst a \<noteq> fst b" by auto
  have a: "a \<in> set ps" "request_key S (fst a) (snd a) = k"
    and b: "b \<in> set ps" "request_key S (fst b) (snd b) = k"
    using with_key_member [of a S k ps] with_key_member [of b S k ps] ab by auto
  from a(2) b(2) neq have "extractIdentifier S (snd a) \<noteq> []"
    using request_key_eq_iff [OF assms(1), of "fst a" "snd a" "fst b" "snd b"] by auto
  with a show ?thesis
    using canonical_extractIdentifier [OF assms(1), of "snd a"]
    by (auto simp: request_key_def Let_def)
qed

lemma last_with_key_label:
  assumes "canonical k" and "with_key S k ps \<noteq> []"
  shows "(case last (with_key S k ps) of (i, r) \<Rightarrow> duplicate_label S i r) = k"
proof -
  have "last (with_key S k ps) \<in> set (with_key S k ps)" using assms(2) by simp
  then have "extractIdentifier S (snd (last (with_key S k ps))) = k"
    by (simp add: with_key_canonical [OF assms(1)])
  with assms(1) show ?thesis
    by (auto simp: duplicate_label_def Let_def canonical_def split: prod.splits)
qed

lemma dups_lookup_enumerate:
  assumes "upper_case_mapping S" and "distinct (map fst ps)"
  shows "map_of (duplicateMap (insight_loop S ps)) k =
     (if canonical k \<and> 2 \<le> occurrences_of S k (map snd ps)
      then Some \<lparr>dup_identifier = k, occurrences = occurrences_of S k (map snd ps)\<rparr>
      else None)"
proof (cases "2 \<le> length (with_key S k ps)")
  case True
  then have c: "canonical k" using duplicated_key_canonical [OF assms] by blast
  from True have "with_key S k ps \<noteq> []" by auto
  with True c show ?thesis
    by (simp add: dups_lookup last_with_key_label length_with_key_canonical)
next
  case False
  then show ?thesis
    by (auto simp: dups_lookup length_with_key_canonical)
qed

lemma distinct_fst_enumerate: "distinct (map fst (enumerate n rs))"
  by simp

lemma dups_entries:
  assumes "upper_case_mapping S" and "distinct (map fst ps)"
  shows "(k, d) \<in> set (duplicateMap (insight_loop S ps)) \<longleftrightarrow>
     canonical k \<and> 2 \<le> occurrences_of S k (map snd ps) \<and>
     d = \<lparr>dup_identifier = k, occurrences = occurrences_of S k (map snd ps)\<rparr>"
  using map_of_eq_Some_iff [OF dups_distinct, of S ps k d] dups_lookup_enumerate [OF assms, of k]
  by (auto split: if_splits)


section \<open>Properties of the request insights\<close>

lemma set_request_keys:
  "set (request_keys S rs) = (\<lambda>i. request_key S i (rs ! i)) ` {i. i < length rs}"
  by (force simp: request_keys_def in_set_enumerate_eq image_iff)

lemma set_request_keys_split:
  "set (request_keys S rs) =
     (set (map (extractIdentifier S) rs) - {[]}) \<union>
     (\<lambda>i. ''row-'' @ decimal i) ` {i. i < length rs \<and> extractIdentifier S (rs ! i) = []}"
  (is "?L = ?A \<union> ?B")
proof (intro set_eqI iffI)
  fix k assume "k \<in> ?L"
  then obtain i where i: "i < length rs" "k = request_key S i (rs ! i)"
    by (auto simp: set_request_keys)
  then show "k \<in> ?A \<union> ?B"
    by (cases "extractIdentifier S (rs ! i) = []") (auto simp: request_key_def Let_def)
next
  fix k assume "k \<in> ?A \<union> ?B"
  then show "k \<in> ?L"
  proof
    assume "k \<in> ?A"
    then obtain i where "i < length rs" "extractIdentifier S (rs ! i) = k" "k \<noteq> []"
      by (auto simp: in_set_conv_nth)
    then show ?thesis
      by (auto simp: set_request_keys request_key_def Let_def image_iff intro!: exI [of _ i])
  next
    assume "k \<in> ?B"
    then show ?thesis
      by (auto simp: set_request_keys request_key_def Let_def image_iff)
  qed
qed

lemma card_request_keys:
  assumes "upper_case_mapping S"
  shows "card (set (request_keys S rs)) =
     card (set (map (extractIdentifier S) rs) - {[]}) +
     length (filter (\<lambda>r. extractIdentifier S r = []) rs)"
proof -
  let ?A = "set (map (extractIdentifier S) rs) - {[]}"
  let ?I = "{i. i < length rs \<and> extractIdentifier S (rs ! i) = []}"
  let ?B = "(\<lambda>i. ''row-'' @ decimal i) ` ?I"
  have disj: "?A \<inter> ?B = {}"
  proof -
    have A: "\<exists>r. k = extractIdentifier S r" if "k \<in> ?A" for k
      using that by auto
    have B: "\<exists>i. k = ''row-'' @ decimal i" if "k \<in> ?B" for k
      using that by blast
    show ?thesis
    proof (rule ccontr)
      assume "?A \<inter> ?B \<noteq> {}"
      then obtain k where "k \<in> ?A" "k \<in> ?B" by blast
      with A B obtain r i where "k = extractIdentifier S r" "k = ''row-'' @ decimal i"
        by blast
      then show False using extractIdentifier_not_row [OF assms, of r "decimal i"] by simp
    qed
  qed
  have inj: "inj_on (\<lambda>i. ''row-'' @ decimal i) ?I"
    by (auto simp: inj_on_def dest: decimal_inj)
  have "card (?A \<union> ?B) = card ?A + card ?B"
    by (rule card_Un_disjoint [OF _ _ disj]) simp_all
  also have "card ?B = card ?I" by (rule card_image [OF inj])
  also have "card ?I = length (filter (\<lambda>r. extractIdentifier S r = []) rs)"
    by (simp add: length_filter_conv_card)
  finally show ?thesis by (simp add: set_request_keys_split)
qed

lemma map_size_counts:
  "map_size (identifierCounts (insight_loop S ps)) =
     card (set (map (\<lambda>(i, r). request_key S i r) ps))"
proof -
  let ?m = "identifierCounts (insight_loop S ps)"
  have "dom (map_of ?m) = set (map (\<lambda>(i, r). request_key S i r) ps)"
    by (auto simp: dom_def counts_lookup with_key_def filter_empty_conv image_iff
        split: if_splits) 
  then have "set (map fst ?m) = set (map (\<lambda>(i, r). request_key S i r) ps)"
    by (simp add: dom_map_of_conv_image_fst)
  moreover have "card (set (map fst ?m)) = length (map fst ?m)"
    by (rule distinct_card) (rule counts_distinct)
  ultimately show ?thesis by (simp add: map_size_def)
qed

text \<open>
  C8. The unique count and the duplicate count add up to the number of client records.
  The unique count is the number of distinct keys, the duplicate count is the number of
  records minus the number of distinct keys, and the unidentified count is the number
  of client records with an empty identifier. The distinct keys are the distinct
  non-empty identifiers and one synthetic key for each unidentified row.
\<close>

theorem request_insights_counts:
  "uniqueCount (computeRequestInsights S rs) + duplicateCount (computeRequestInsights S rs)
     = int (length rs)
   \<and> uniqueCount (computeRequestInsights S rs) = int (card (set (request_keys S rs)))
   \<and> duplicateCount (computeRequestInsights S rs)
       = int (length rs) - int (card (set (request_keys S rs)))
   \<and> unidentifiedCount (computeRequestInsights S rs)
       = length (filter (\<lambda>r. extractIdentifier S r = []) rs)
   \<and> (upper_case_mapping S \<longrightarrow>
        card (set (request_keys S rs))
          = card (set (map (extractIdentifier S) rs) - {[]})
            + length (filter (\<lambda>r. extractIdentifier S r = []) rs))"
proof (cases "rs = []")
  case True
  then show ?thesis
    by (simp add: computeRequestInsights_def request_keys_def)
next
  case False
  then show ?thesis
    by (simp add: computeRequestInsights_def Let_def map_size_counts unidentified_count
        card_request_keys flip: request_keys_def)
qed

theorem request_insights_counts_witness:
  "uniqueCount (computeRequestInsights ascii_ops mixed_clients) = 3
   \<and> duplicateCount (computeRequestInsights ascii_ops mixed_clients) = 1
   \<and> unidentifiedCount (computeRequestInsights ascii_ops mixed_clients) = 2"
proof -
  have k: "card (set (request_keys ascii_ops mixed_clients)) = 3" by code_simp
  have n: "length mixed_clients = 4" by code_simp
  have u: "length (filter (\<lambda>r. extractIdentifier ascii_ops r = []) mixed_clients) = 2" by code_simp
  from request_insights_counts [of ascii_ops mixed_clients] k n u
  show ?thesis by simp
qed

lemma sorted_sort_desc: "sorted_wrt (\<lambda>a b. f b \<le> f a) (sort_desc f xs)"
proof -
  have "sorted (map (\<lambda>x. - int (f x)) (sort_desc f xs))"
    unfolding sort_desc_def by (rule sorted_sort_key)
  then show ?thesis by (simp add: sorted_map)
qed

lemma set_sort_desc: "set (sort_desc f xs) = set xs"
  by (simp add: sort_desc_def)

lemma distinct_map_sort_desc: "distinct (map g (sort_desc f xs)) = distinct (map g xs)"
  by (simp add: sort_desc_def distinct_map)

lemma dups_identifier_is_key:
  assumes "upper_case_mapping S" and "distinct (map fst ps)"
  shows "map dup_identifier (map snd (duplicateMap (insight_loop S ps)))
           = map fst (duplicateMap (insight_loop S ps))"
  using dups_entries [OF assms] by (auto simp: map_eq_conv)

lemma occurrences_of_pos_iff: "0 < occurrences_of S i rs \<longleftrightarrow> i \<in> set (map (extractIdentifier S) rs)"
  by (auto simp: occurrences_of_def filter_empty_conv image_iff)

lemma set_dups_enumerate:
  assumes "upper_case_mapping S"
  shows "set (map snd (duplicateMap (insight_loop S (enumerate 0 rs)))) =
     (\<lambda>i. \<lparr>dup_identifier = i, occurrences = occurrences_of S i rs\<rparr>) `
       {i \<in> set (map (extractIdentifier S) rs). i \<noteq> [] \<and> 2 \<le> occurrences_of S i rs}"
  (is "?L = ?R")
proof (intro set_eqI iffI)
  fix d assume "d \<in> ?L"
  then obtain k where "(k, d) \<in> set (duplicateMap (insight_loop S (enumerate 0 rs)))"
    by auto
  then have k: "canonical k" "2 \<le> occurrences_of S k rs"
      "d = \<lparr>dup_identifier = k, occurrences = occurrences_of S k rs\<rparr>"
    using dups_entries [OF assms, of "enumerate 0 rs" k d] by simp_all
  from k(2) have "k \<in> set (map (extractIdentifier S) rs)"
    using occurrences_of_pos_iff [of S k rs] by simp
  with k show "d \<in> ?R" by (auto simp: canonical_def)
next
  fix d assume "d \<in> ?R"
  then obtain i where i: "i \<in> set (map (extractIdentifier S) rs)" "i \<noteq> []"
      "2 \<le> occurrences_of S i rs" "d = \<lparr>dup_identifier = i, occurrences = occurrences_of S i rs\<rparr>"
    by auto
  from i(1,2) have "canonical i" by (auto intro: canonical_extractIdentifier [OF assms])
  with i have "(i, d) \<in> set (duplicateMap (insight_loop S (enumerate 0 rs)))"
    using dups_entries [OF assms, of "enumerate 0 rs" i d] by simp
  then show "d \<in> ?L" by force
qed

lemma Object_entries_upper_values:
  "Object_entries (upper_values S r) = upper_values S (Object_entries r)"
proof -
  let ?h = "\<lambda>(k, v). (k, toUpperCase S v)"
  have i: "is_index_field (?h p) = is_index_field p" and o: "index_of (?h p) = index_of p" for p
    by (simp_all add: is_index_field_def index_of_def case_prod_unfold)
  show ?thesis
    by (simp add: Object_entries_def upper_values_def filter_map sort_key_map comp_def i o)
qed

lemma lowerMap_of_upper_values:
  "lowerMap_of S (upper_values S es) c = map_option (toUpperCase S) (lowerMap_of S es c)"
proof -
  have "field_values S c (upper_values S es) = map (toUpperCase S) (field_values S c es)"
    by (induction es) (auto simp: field_values_def upper_values_def)
  then show ?thesis by (simp add: lowerMap_of_lookup last_map)
qed

lemma first_candidate_upper_values:
  assumes "upper_case_mapping S"
  shows "first_candidate S (lowerMap_of S (upper_values S es)) cs
     = first_candidate S (lowerMap_of S es) cs"
  by (induction cs)
    (auto simp: lowerMap_of_upper_values upper_case_idem [OF assms]
      upper_case_Nil_iff [OF assms] split: option.splits)

lemma extractIdentifier_upper_values:
  assumes "upper_case_mapping S"
  shows "extractIdentifier S (upper_values S r) = extractIdentifier S r"
proof -
  have "(case upper_values S es of
      [] \<Rightarrow> [] | (k, v) # _ \<Rightarrow> if v = [] then [] else toUpperCase S v)
      = (case es of [] \<Rightarrow> [] | (k, v) # _ \<Rightarrow> if v = [] then [] else toUpperCase S v)" for es
    by (cases es)
      (auto simp: upper_values_def upper_case_idem [OF assms] upper_case_Nil_iff [OF assms])
  then show ?thesis
    by (simp add: extractIdentifier_lowerMap Object_entries_upper_values
        first_candidate_upper_values [OF assms] split: option.splits)
qed

lemma upper_values_eqI:
  assumes "map fst r = map fst r'"
    and "map (toUpperCase S \<circ> snd) r = map (toUpperCase S \<circ> snd) r'"
  shows "upper_values S r = upper_values S r'"
proof -
  have "upper_values S x = zip (map fst x) (map (toUpperCase S \<circ> snd) x)" for x
    by (induction x) (auto simp: upper_values_def)
  with assms show ?thesis by simp
qed

lemma extractIdentifier_value_casing:
  assumes "upper_case_mapping S"
    and "map fst r = map fst r'"
    and "map (toUpperCase S \<circ> snd) r = map (toUpperCase S \<circ> snd) r'"
  shows "extractIdentifier S r = extractIdentifier S r'"
proof -
  have "extractIdentifier S r = extractIdentifier S (upper_values S r)"
    by (simp only: extractIdentifier_upper_values [OF assms(1)])
  also have "\<dots> = extractIdentifier S (upper_values S r')"
    by (simp only: upper_values_eqI [OF assms(2,3)])
  also have "\<dots> = extractIdentifier S r'"
    by (simp only: extractIdentifier_upper_values [OF assms(1)])
  finally show ?thesis .
qed

text \<open>
  C9. With an upper-case mapping, duplicate detection is keyed by the canonical
  identifier: two records with the same field names whose values differ only in case
  (their upper-cased values are equal) have the same identifier. The duplicate list has
  exactly one entry for each non-empty identifier that at least two client records have,
  and the occurrences of that entry is the number of client records with that
  identifier; it has no other entry. The list is sorted in descending order of
  occurrences.
\<close>

theorem duplicate_detection:
  assumes "upper_case_mapping S"
  shows "distinct (map dup_identifier (duplicates (computeRequestInsights S rs)))
   \<and> set (duplicates (computeRequestInsights S rs)) =
       (\<lambda>i. \<lparr>dup_identifier = i, occurrences = occurrences_of S i rs\<rparr>) `
         {i \<in> set (map (extractIdentifier S) rs). i \<noteq> [] \<and> 2 \<le> occurrences_of S i rs}
   \<and> sorted_wrt (\<lambda>a b. occurrences b \<le> occurrences a)
        (duplicates (computeRequestInsights S rs))
   \<and> (map fst r = map fst r' \<and> map (toUpperCase S \<circ> snd) r = map (toUpperCase S \<circ> snd) r'
        \<longrightarrow> extractIdentifier S r = extractIdentifier S r')"
proof (intro conjI impI)
  show "distinct (map dup_identifier (duplicates (computeRequestInsights S rs)))"
  proof (cases "rs = []")
    case True
    then show ?thesis by (simp add: computeRequestInsights_def)
  next
    case False
    let ?dm = "duplicateMap (insight_loop S (enumerate 0 rs))"
    have "distinct (map dup_identifier (map snd ?dm))"
      by (simp only: dups_identifier_is_key [OF assms distinct_fst_enumerate] dups_distinct)
    then have "distinct (map dup_identifier (sort_desc occurrences (map snd ?dm)))"
      by (simp only: distinct_map_sort_desc)
    with False show ?thesis
      by (simp add: computeRequestInsights_def Let_def)
  qed
  show "set (duplicates (computeRequestInsights S rs)) =
       (\<lambda>i. \<lparr>dup_identifier = i, occurrences = occurrences_of S i rs\<rparr>) `
         {i \<in> set (map (extractIdentifier S) rs). i \<noteq> [] \<and> 2 \<le> occurrences_of S i rs}"
  proof (cases "rs = []")
    case True
    then show ?thesis by (simp add: computeRequestInsights_def)
  next
    case False
    then show ?thesis
      using set_dups_enumerate [OF assms, of rs]
      by (simp add: computeRequestInsights_def Let_def set_sort_desc)
  qed
  show "sorted_wrt (\<lambda>a b. occurrences b \<le> occurrences a)
      (duplicates (computeRequestInsights S rs))"
    by (simp add: computeRequestInsights_def Let_def sorted_sort_desc)
next
  assume "map fst r = map fst r' \<and> map (toUpperCase S \<circ> snd) r = map (toUpperCase S \<circ> snd) r'"
  then show "extractIdentifier S r = extractIdentifier S r'"
    by (intro extractIdentifier_value_casing [OF assms]) simp_all
qed

theorem duplicate_detection_witness:
  "upper_case_mapping ascii_ops
   \<and> duplicates (computeRequestInsights ascii_ops scenario4_clients)
     = [\<lparr>dup_identifier = ''A1'', occurrences = 2\<rparr>]
   \<and> extractIdentifier ascii_ops [(''PN'', ''A1'')] = extractIdentifier ascii_ops [(''PN'', ''a1'')]"
proof -
  have v: "map fst [(''PN'', ''A1'')] = map fst [(''PN'', ''a1'')]
      \<and> map (toUpperCase ascii_ops \<circ> snd) [(''PN'', ''A1'')]
        = map (toUpperCase ascii_ops \<circ> snd) [(''PN'', ''a1'')]"
    by code_simp
  have d: "duplicates (computeRequestInsights ascii_ops scenario4_clients)
      = [\<lparr>dup_identifier = ''A1'', occurrences = 2\<rparr>]"
    by code_simp
  from duplicate_detection [OF ascii_upper_case_mapping,
      of scenario4_clients "[(''PN'', ''A1'')]" "[(''PN'', ''a1'')]"] v d
    ascii_upper_case_mapping
  show ?thesis by simp
qed

lemma unidentified_row_once:
  assumes "upper_case_mapping S"
    and "i < length rs" and "extractIdentifier S (rs ! i) = []"
  shows "length (with_key S (request_key S i (rs ! i)) (enumerate 0 rs)) = 1"
proof -
  let ?k = "request_key S i (rs ! i)"
  have k: "?k = ''row-'' @ decimal i"
    using assms(3) by (simp add: request_key_def)
  have "(i, rs ! i) \<in> set (enumerate 0 rs)"
    using assms(2) by (simp add: in_set_enumerate_eq)
  then have "(i, rs ! i) \<in> set (with_key S ?k (enumerate 0 rs))"
    by (simp add: with_key_def)
  then have "1 \<le> length (with_key S ?k (enumerate 0 rs))"
    by (cases "with_key S ?k (enumerate 0 rs)") auto
  moreover have "\<not> 2 \<le> length (with_key S ?k (enumerate 0 rs))"
    using duplicated_key_canonical [OF assms(1), of "enumerate 0 rs" ?k]
      not_canonical_row [of "decimal i"]
    by (auto simp: k)
  ultimately show ?thesis by linarith
qed

text \<open>
  C10. With an upper-case mapping, the identifier of a record is empty or unchanged by
  upper-casing. It is never a synthetic key \<open>row-<index>\<close>. Two rows have the same
  key only when they have the same identifier, and, when that identifier is empty, only
  when they are the same row. So the counter of the key of an unidentified row is
  exactly 1 after the loop, and that key has no entry in the duplicate map.
\<close>

theorem synthetic_keys_never_collide:
  assumes "upper_case_mapping S"
  shows "(extractIdentifier S r = [] \<or> toUpperCase S (extractIdentifier S r) = extractIdentifier S r)
   \<and> extractIdentifier S r \<noteq> ''row-'' @ decimal j
   \<and> (request_key S i r = request_key S j r' \<longrightarrow>
        extractIdentifier S r = extractIdentifier S r' \<and> (extractIdentifier S r = [] \<longrightarrow> i = j))
   \<and> (n < length rs \<and> extractIdentifier S (rs ! n) = [] \<longrightarrow>
        map_get (identifierCounts (insight_loop S (enumerate 0 rs))) (request_key S n (rs ! n))
          = Some 1
        \<and> map_get (duplicateMap (insight_loop S (enumerate 0 rs))) (request_key S n (rs ! n))
          = None)"
proof (intro conjI impI)
  show "extractIdentifier S r = [] \<or> toUpperCase S (extractIdentifier S r) = extractIdentifier S r"
    by (simp add: extractIdentifier_upper [OF assms])
  show "extractIdentifier S r \<noteq> ''row-'' @ decimal j"
    by (rule extractIdentifier_not_row [OF assms])
next
  assume "request_key S i r = request_key S j r'"
  then show "extractIdentifier S r = extractIdentifier S r'"
    by (auto simp: request_key_eq_iff [OF assms])
next
  assume "request_key S i r = request_key S j r'" and "extractIdentifier S r = []"
  then show "i = j" by (auto simp: request_key_eq_iff [OF assms])
next
  assume a: "n < length rs \<and> extractIdentifier S (rs ! n) = []"
  then have one: "length (with_key S (request_key S n (rs ! n)) (enumerate 0 rs)) = 1"
    by (simp add: unidentified_row_once [OF assms])
  then have "with_key S (request_key S n (rs ! n)) (enumerate 0 rs) \<noteq> []" by auto
  with one show "map_get (identifierCounts (insight_loop S (enumerate 0 rs)))
      (request_key S n (rs ! n)) = Some 1"
    by (simp add: map_get_def counts_lookup)
  from one show "map_get (duplicateMap (insight_loop S (enumerate 0 rs)))
      (request_key S n (rs ! n)) = None"
    by (simp add: map_get_def dups_lookup)
qed

theorem synthetic_keys_never_collide_witness:
  "upper_case_mapping ascii_ops
   \<and> request_key ascii_ops 0 [(''PN'', ''A1'')] = request_key ascii_ops 1 [(''PN'', ''a1'')]
   \<and> extractIdentifier ascii_ops [(''PN'', ''A1'')] = extractIdentifier ascii_ops [(''PN'', ''a1'')]
   \<and> 2 < length mixed_clients \<and> extractIdentifier ascii_ops (mixed_clients ! 2) = []
   \<and> map_get (identifierCounts (insight_loop ascii_ops (enumerate 0 mixed_clients))) ''row-2''
       = Some 1
   \<and> map_get (duplicateMap (insight_loop ascii_ops (enumerate 0 mixed_clients))) ''row-2'' = None"
proof -
  have k: "request_key ascii_ops 0 [(''PN'', ''A1'')] = request_key ascii_ops 1 [(''PN'', ''a1'')]"
    by code_simp
  have n: "2 < length mixed_clients" by code_simp
  have e: "extractIdentifier ascii_ops (mixed_clients ! 2) = []" by code_simp
  have r: "request_key ascii_ops 2 (mixed_clients ! 2) = ''row-2''" by code_simp
  from synthetic_keys_never_collide
    [OF ascii_upper_case_mapping, where r = "[(''PN'', ''A1'')]" and i = 0 and j = 1
      and r' = "[(''PN'', ''a1'')]" and n = 2 and rs = mixed_clients] k n e r
    ascii_upper_case_mapping
  show ?thesis by simp
qed


section \<open>Rounding to a double\<close>






















lemma percentage_of_29_200: "percentage_of 29 200 = 14"
  by code_simp


section \<open>Coverage\<close>







section \<open>Top distributions\<close>



















end
